theory Spec2Isabelle
  imports Main
begin

section \<open>brief.c: a brainfuck interpreter with configurable ranges\<close>

text \<open>
  The whole program is the function \<open>main\<close> of \<open>brief.c\<close> and the helper \<open>wrap\<close>.
  The model follows the three phases of \<open>main\<close> after the options have been read:
  the scan of the source file that fills the instruction memory \<open>im\<close> (lines 127-168),
  the dump of \<open>im\<close> (lines 172-180) and the execution loop (lines 181-290).

  Conventions of the model.
  \<^item> C \<open>long\<close> values that hold cell contents, the cell index and the option values
    \<open>va\<close>, \<open>vb\<close>, \<open>cn\<close> are \<open>int\<close>. The sums \<open>cm[ci] + quantity\<close> and
    \<open>cm[ci] - quantity\<close> of lines 186-219 leave the range of \<open>long\<close> when a cell is at an
    end of that range, which the options \<open>-a\<close> and \<open>-b\<close> allow; they are computed as the
    compiled program computes them, reduced into the range of \<open>long\<close> (see \<open>long\<close> below).
    The arithmetic on the cell index and inside \<open>wrap\<close> is not reduced.
  \<^item> Counters that start at 0 or 1 and are only ever incremented (instruction indices,
    the quantities of folded instructions, the loop stack entries) are \<open>nat\<close>.
  \<^item> A field of an \<open>instruction\<close> that no statement has assigned since \<open>malloc\<close> is
    \<open>None\<close>.
  \<^item> \<open>im\<close> is the used prefix \<open>im[0 .. in-1]\<close> of the instruction memory, so that the C
    variable \<open>in\<close> is \<open>length im\<close>; likewise \<open>ls\<close> is the used prefix \<open>ls[0 .. ln-1]\<close> of
    the loop stack (most recent entry last) and \<open>ln\<close> is \<open>length ls\<close>. The growth of
    both arrays by \<open>realloc\<close> is not modelled.
  \<^item> Bytes of the standard streams are \<open>char\<close>.
\<close>

subsection \<open>Data\<close>

record instruction =
  instruction :: char
  quantity :: "nat option"
  loop :: "nat option"

text \<open>
  The ways the program can stop other than by \<open>return 0\<close>: \<open>die\<close> with its message
  (exit status 1; the newline that \<open>die\<close> also writes to the standard output is not
  kept), and the places where the C code has no defined behaviour (an access outside an
  array, a read of a field that was never assigned, a remainder by zero).
\<close>

datatype error = Die string | Undefined string

text \<open>The values the option loop (lines 103-122) leaves in the locals of \<open>main\<close>.\<close>

record config =
  opt_a :: int
  opt_b :: int
  opt_c :: int
  opt_e :: char
  opt_m :: char
  opt_v :: char
  opt_w :: char

definition defaults :: config where
  "defaults = \<lparr>opt_a = 0, opt_b = 255, opt_c = 30000, opt_e = CHR ''0'',
     opt_m = CHR ''r'', opt_v = CHR ''w'', opt_w = CHR ''e''\<rparr>"

text \<open>The locals of \<open>main\<close> that the three phases use, and the two standard streams.\<close>

record state =
  ce :: char
  ci :: int
  cn :: int
  cw :: char
  ii :: nat
  im :: "instruction list"
  ls :: "nat list"
  mode :: char
  va :: int
  vb :: int
  vw :: char
  cm :: "int list"
  stdin :: string
  stdout :: string

definition after_options :: "config \<Rightarrow> string \<Rightarrow> state" where
  "after_options c inp =
     \<lparr>ce = opt_e c, ci = 0, cn = opt_c c, cw = opt_w c, ii = 0, im = [], ls = [],
      mode = opt_m c, va = opt_a c, vb = opt_b c, vw = opt_v c, cm = [],
      stdin = inp, stdout = []\<rparr>"

subsection \<open>The scan of the source (lines 127-168)\<close>

definition foldable :: "char \<Rightarrow> bool" where
  "foldable i \<longleftrightarrow> i = CHR ''+'' \<or> i = CHR ''-'' \<or> i = CHR ''>'' \<or> i = CHR ''<''
     \<or> i = CHR '','' \<or> i = CHR ''.''"

text \<open>One pass of the body of the \<open>for\<close> loop, for the character \<open>i\<close> that \<open>getc\<close> returned.\<close>

definition compile_char :: "char \<Rightarrow> state \<Rightarrow> error + state" where
  "compile_char i s =
     (if foldable i then
        (if im s \<noteq> [] \<and> i = instruction (last (im s)) then
           Inr (s\<lparr>im := (im s)[length (im s) - 1 :=
                  (last (im s))\<lparr>quantity := map_option Suc (quantity (last (im s)))\<rparr>]\<rparr>)
         else
           Inr (s\<lparr>im := im s @ [\<lparr>instruction = i, quantity = Some 1, loop = None\<rparr>],
                  ii := ii s + 1\<rparr>))
      else if i = CHR ''['' then
        Inr (s\<lparr>im := im s @ [\<lparr>instruction = i, quantity = None, loop = None\<rparr>],
               ls := ls s @ [ii s],
               ii := ii s + 1\<rparr>)
      else if i = CHR '']'' then
        (if ls s = [] then Inl (Undefined ''ls[-1]'')
         else
           (let im1 = im s @ [\<lparr>instruction = i, quantity = None, loop = Some (last (ls s))\<rparr>]
            in if last (ls s) < length im1 then
                 Inr (s\<lparr>im := im1[last (ls s) := (im1 ! last (ls s))\<lparr>loop := Some (ii s)\<rparr>],
                        ls := butlast (ls s),
                        ii := ii s + 1\<rparr>)
               else Inl (Undefined ''im[ls[ln-1]]'')))
      else Inr s)"

fun compile_loop :: "string \<Rightarrow> state \<Rightarrow> error + state" where
  "compile_loop [] s = Inr s"
| "compile_loop (i # fp) s =
     (case compile_char i s of Inl e \<Rightarrow> Inl e | Inr s' \<Rightarrow> compile_loop fp s')"

definition compile :: "state \<Rightarrow> string \<Rightarrow> error + state" where
  "compile s fp = compile_loop fp (s\<lparr>ii := 0\<rparr>)"

subsection \<open>The dump (lines 172-180)\<close>

text \<open>\<open>printf("%ld")\<close> of a number that is not negative.\<close>

fun decimal :: "nat \<Rightarrow> nat \<Rightarrow> string" where
  "decimal 0 n = []"
| "decimal (Suc f) n =
     (if n < 10 then [char_of (48 + n)]
      else decimal f (n div 10) @ [char_of (48 + n mod 10)])"

definition ld :: "nat \<Rightarrow> string" where
  "ld n = decimal (Suc n) n"

fun dump_loop :: "instruction list \<Rightarrow> nat \<Rightarrow> error + string" where
  "dump_loop [] j = Inr []"
| "dump_loop (x # xs) j =
     (case quantity x of
        None \<Rightarrow> Inl (Undefined ''quantity never assigned'')
      | Some q \<Rightarrow>
          (case dump_loop xs (j + 1) of
             Inl e \<Rightarrow> Inl e
           | Inr out \<Rightarrow>
               Inr ([instruction x, CHR '' ''] @ ld q
                    @ [if (j + 1) mod 8 \<noteq> 0 then char_of (9::nat) else char_of (10::nat)]
                    @ out)))"

definition dump :: "state \<Rightarrow> error + state" where
  "dump s =
     (case dump_loop (im s) 0 of
        Inl e \<Rightarrow> Inl e
      | Inr out \<Rightarrow> Inr (s\<lparr>ii := length (im s), stdout := stdout s @ out @ [char_of (10::nat)]\<rparr>))"

subsection \<open>The execution loop (lines 181-290)\<close>

text \<open>The operator \<open>%\<close> of C99: the quotient is truncated towards zero, so the remainder
  has the sign of the dividend.\<close>

definition c_rem :: "int \<Rightarrow> int \<Rightarrow> int" where
  "c_rem a b = sgn a * (\<bar>a\<bar> mod \<bar>b\<bar>)"

definition wrap :: "int \<Rightarrow> int \<Rightarrow> int \<Rightarrow> error + int" where
  "wrap v low high =
     (if 1 + high - low = 0 then Inl (Undefined ''remainder by zero'')
      else Inr (c_rem (v - low) (1 + high - low) + low))"

text \<open>
  The limits of \<open>long\<close> (\<open>limits.h\<close>, where \<open>long\<close> has 64 bits), and the value that the
  compiled program has for a sum or a difference of two \<open>long\<close> whose mathematical
  value is \<open>x\<close>: \<open>x\<close> itself when it is in the range, and otherwise \<open>x\<close> reduced into the
  range modulo \<open>2 ^ 64\<close> (two's complement; C leaves this overflow undefined).
\<close>

definition LONG_MAX :: int where
  "LONG_MAX = 9223372036854775807"

definition LONG_MIN :: int where
  "LONG_MIN = - 9223372036854775808"

definition long :: "int \<Rightarrow> int" where
  "long x = (x - LONG_MIN) mod 2 ^ 64 + LONG_MIN"

text \<open>Reading and writing \<open>cm[ci]\<close>.\<close>

definition in_cells :: "state \<Rightarrow> bool" where
  "in_cells s \<longleftrightarrow> 0 \<le> ci s \<and> ci s < int (length (cm s))"

definition cell :: "state \<Rightarrow> int" where
  "cell s = cm s ! nat (ci s)"

definition set_cell :: "int \<Rightarrow> state \<Rightarrow> state" where
  "set_cell v s = s\<lparr>cm := (cm s)[nat (ci s) := v]\<rparr>"

definition out_of_cells :: error where
  "out_of_cells = Undefined ''cm[ci] outside the cell memory''"

definition vinc :: "nat \<Rightarrow> state \<Rightarrow> error + state" where
  "vinc q s =
     (if \<not> in_cells s then Inl out_of_cells
      else if long (cell s + int q) > vb s then
        (if vw s = CHR ''e'' then Inl (Die ''value overflow'')
         else if vw s = CHR ''i'' then Inr (set_cell (vb s) s)
         else if vw s = CHR ''w'' then
           (case wrap (long (cell s + int q)) (va s) (vb s) of
              Inl e \<Rightarrow> Inl e
            | Inr w \<Rightarrow> Inr (set_cell w s))
         else Inl (Die ''invalid value-end behaviour''))
      else Inr (set_cell (long (cell s + int q)) s))"

definition vdec :: "nat \<Rightarrow> state \<Rightarrow> error + state" where
  "vdec q s =
     (if \<not> in_cells s then Inl out_of_cells
      else if long (cell s - int q) < va s then
        (if vw s = CHR ''e'' then Inl (Die ''value underflow'')
         else if vw s = CHR ''i'' then Inr (set_cell (va s) s)
         else if vw s = CHR ''w'' then
           (case wrap (long (cell s - int q)) (va s) (vb s) of
              Inl e \<Rightarrow> Inl e
            | Inr w \<Rightarrow> Inr (set_cell w s))
         else Inl (Die ''invalid value-end behaviour''))
      else Inr (set_cell (long (cell s - int q)) s))"

definition pinc :: "nat \<Rightarrow> state \<Rightarrow> error + state" where
  "pinc q s =
     (if ci s + int q > cn s - 1 then
        (if cw s = CHR ''e'' then Inl (Die ''cell index overflow'')
         else if cw s = CHR ''i'' then Inr (s\<lparr>ci := cn s - 1\<rparr>)
         else if cw s = CHR ''w'' then
           (case wrap (ci s + int q) 0 (cn s) of
              Inl e \<Rightarrow> Inl e
            | Inr w \<Rightarrow> Inr (s\<lparr>ci := w\<rparr>))
         else Inl (Die ''invalid cell-end behaviour''))
      else Inr (s\<lparr>ci := ci s + int q\<rparr>))"

definition pdec :: "nat \<Rightarrow> state \<Rightarrow> error + state" where
  "pdec q s =
     (if ci s - int q < 0 then
        (if cw s = CHR ''e'' then Inl (Die ''cell index underflow'')
         else if cw s = CHR ''i'' then Inr (s\<lparr>ci := 0\<rparr>)
         else if cw s = CHR ''w'' then
           (case wrap (ci s - int q) 0 (cn s) of
              Inl e \<Rightarrow> Inl e
            | Inr w \<Rightarrow> Inr (s\<lparr>ci := w\<rparr>))
         else Inl (Die ''invalid cell-end behaviour''))
      else Inr (s\<lparr>ci := ci s - int q\<rparr>))"

text \<open>The value of the macro \<open>EOF\<close> of \<open>stdio.h\<close> (negative by the C standard; \<open>-1\<close> in
  the C libraries in use).\<close>

definition EOF :: int where
  "EOF = -1"

text \<open>One pass of the body of the loop of \<open>BF_OP_IN\<close> (lines 259-272): \<open>k = getchar()\<close>,
  the switch on \<open>ce\<close> when \<open>k == EOF\<close> (\<open>on_eof\<close> is the value of \<open>k\<close> after it; the case
  \<open>BF_EOF_NOCHG\<close> is a bare \<open>break\<close>, which leaves \<open>k\<close> as it is), and \<open>cm[ci] = k\<close>.\<close>

definition on_eof :: "state \<Rightarrow> error + int" where
  "on_eof s =
     (if ce s = CHR ''0'' then Inr 0
      else if ce s = CHR ''n'' then Inr (- 1)
      else if ce s = CHR ''a'' then Inr (va s)
      else if ce s = CHR ''b'' then Inr (vb s)
      else if ce s = CHR ''x'' then Inr EOF
      else Inl (Die ''invalid EOF behaviour''))"

definition store :: "int \<Rightarrow> state \<Rightarrow> error + state" where
  "store k s = (if in_cells s then Inr (set_cell k s) else Inl out_of_cells)"

definition read_once :: "state \<Rightarrow> error + state" where
  "read_once s =
     (case stdin s of
        [] \<Rightarrow> (case on_eof s of Inl e \<Rightarrow> Inl e | Inr k \<Rightarrow> store k s)
      | b # rest \<Rightarrow> store (of_char b) (s\<lparr>stdin := rest\<rparr>))"

fun op_in :: "nat \<Rightarrow> state \<Rightarrow> error + state" where
  "op_in 0 s = Inr s"
| "op_in (Suc j) s =
     (case read_once s of Inl e \<Rightarrow> Inl e | Inr s' \<Rightarrow> op_in j s')"

fun op_out :: "nat \<Rightarrow> state \<Rightarrow> error + state" where
  "op_out 0 s = Inr s"
| "op_out (Suc j) s =
     (if in_cells s then op_out j (s\<lparr>stdout := stdout s @ [char_of (cell s)]\<rparr>)
      else Inl out_of_cells)"

text \<open>The two loop instructions read \<open>im[ii].loop\<close>.\<close>

definition jump :: "state \<Rightarrow> error + state" where
  "jump s =
     (case loop (im s ! ii s) of
        None \<Rightarrow> Inl (Undefined ''loop never assigned'')
      | Some t \<Rightarrow> Inr (s\<lparr>ii := t\<rparr>))"

definition lstart :: "state \<Rightarrow> error + state" where
  "lstart s =
     (if \<not> in_cells s then Inl out_of_cells
      else if cell s = 0 then jump s
      else Inr s)"

definition lend :: "state \<Rightarrow> error + state" where
  "lend s =
     (if \<not> in_cells s then Inl out_of_cells
      else if cell s \<noteq> 0 then jump s
      else Inr s)"

definition with_quantity :: "instruction \<Rightarrow> (nat \<Rightarrow> state \<Rightarrow> error + state) \<Rightarrow> state
    \<Rightarrow> error + state" where
  "with_quantity x f s =
     (case quantity x of
        None \<Rightarrow> Inl (Undefined ''quantity never assigned'')
      | Some q \<Rightarrow> f q s)"

text \<open>The \<open>switch (im[ii].instruction)\<close> of the execution loop, for \<open>ii < in\<close>.\<close>

definition exec_instruction :: "state \<Rightarrow> error + state" where
  "exec_instruction s =
     (let x = im s ! ii s; i = instruction x in
      if i = CHR ''+'' then with_quantity x vinc s
      else if i = CHR ''-'' then with_quantity x vdec s
      else if i = CHR ''>'' then with_quantity x pinc s
      else if i = CHR ''<'' then with_quantity x pdec s
      else if i = CHR '','' then with_quantity x op_in s
      else if i = CHR ''.'' then with_quantity x op_out s
      else if i = CHR ''['' then lstart s
      else if i = CHR '']'' then lend s
      else Inr s)"

text \<open>
  The loop \<open>for (...; ii < in; ii++)\<close> may run forever; the first argument bounds the
  number of instructions executed, and \<open>None\<close> says that the bound was reached.
\<close>

fun run_loop :: "nat \<Rightarrow> state \<Rightarrow> (error + state) option" where
  "run_loop 0 s = (if ii s < length (im s) then None else Some (Inr s))"
| "run_loop (Suc m) s =
     (if ii s < length (im s) then
        (case exec_instruction s of
           Inl e \<Rightarrow> Some (Inl e)
         | Inr s' \<Rightarrow> run_loop m (s'\<lparr>ii := ii s' + 1\<rparr>))
      else Some (Inr s))"

definition run :: "nat \<Rightarrow> state \<Rightarrow> (error + state) option" where
  "run n s =
     (if cn s < 0 then Some (Inl (Undefined ''malloc of a negative size''))
      else run_loop n (s\<lparr>cm := replicate (nat (cn s)) 0, ii := 0\<rparr>))"

subsection \<open>\<open>main\<close>, from line 127 on\<close>

definition main :: "nat \<Rightarrow> config \<Rightarrow> string \<Rightarrow> string \<Rightarrow> (error + state) option" where
  "main n c fp inp =
     (case compile (after_options c inp) fp of
        Inl e \<Rightarrow> Some (Inl e)
      | Inr s \<Rightarrow>
          if mode s = CHR ''d'' then Some (dump s)
          else if mode s = CHR ''r'' then run n s
          else Some (Inl (Die ''invalid mode'')))"

section \<open>Notions used to state the properties\<close>

text \<open>The values that a \<open>long\<close> can hold.\<close>

definition is_long :: "int \<Rightarrow> bool" where
  "is_long x \<longleftrightarrow> LONG_MIN \<le> x \<and> x \<le> LONG_MAX"

text \<open>A state of the execution loop in front of a single folded instruction: the options
  \<open>c\<close>, the cell memory \<open>cells\<close>, the cell index \<open>p\<close> and the pending input \<open>inp\<close>.\<close>

definition sample :: "char \<Rightarrow> nat \<Rightarrow> config \<Rightarrow> int list \<Rightarrow> int \<Rightarrow> string \<Rightarrow> state" where
  "sample i q c cells p inp =
     (after_options c inp)\<lparr>im := [\<lparr>instruction = i, quantity = Some q, loop = None\<rparr>],
        cm := cells, ci := p, cn := int (length cells)\<rparr>"

text \<open>What is left when \<open>main\<close> stops: the error, or the instruction index, the cell index,
  the cell memory and the output.\<close>

definition final :: "(error + state) option \<Rightarrow> (error + nat \<times> int \<times> int list \<times> string) option" where
  "final r = map_option (map_sum id (\<lambda>s. (ii s, ci s, cm s, stdout s))) r"

text \<open>The state \<open>t\<close> with the three locals the scan writes taken from \<open>s\<close>.\<close>

definition scan_part :: "state \<Rightarrow> state \<Rightarrow> state" where
  "scan_part s t = t\<lparr>ii := ii s, im := im s, ls := ls s\<rparr>"

definition operator :: "char \<Rightarrow> bool" where
  "operator i \<longleftrightarrow> foldable i \<or> i = CHR ''['' \<or> i = CHR '']''"

text \<open>
  Run-length folding as the specification words it, on a text of operator characters:
  every maximal run of \<open>k\<close> equal foldable characters is one entry with the count \<open>k\<close>;
  every bracket is an entry of its own, without a count.
\<close>

function fold_runs :: "string \<Rightarrow> (char \<times> nat option) list" where
  "fold_runs [] = []"
| "fold_runs (c # cs) =
     (if foldable c then
        (c, Some (Suc (length (takeWhile (\<lambda>x. x = c) cs)))) # fold_runs (dropWhile (\<lambda>x. x = c) cs)
      else (c, None) # fold_runs cs)"
  by pat_completeness auto
termination
  by (relation "measure length") (auto simp: length_dropWhile_le less_Suc_eq_le)

text \<open>What the dump shows of an instruction: its character and its quantity.\<close>

definition shown :: "instruction \<Rightarrow> char \<times> nat option" where
  "shown x = (instruction x, quantity x)"

text \<open>The effect of one source character on the list of shown pairs.\<close>

definition emit :: "(char \<times> nat option) list \<Rightarrow> char \<Rightarrow> (char \<times> nat option) list" where
  "emit xs i =
     (if foldable i then
        (if xs \<noteq> [] \<and> i = fst (last xs) then butlast xs @ [(i, map_option Suc (snd (last xs)))]
         else xs @ [(i, Some 1)])
      else if i = CHR ''['' \<or> i = CHR '']'' then xs @ [(i, None)]
      else xs)"

text \<open>
  Bracket matching by counting depth, on a text of instruction characters.
  \<open>find_close cs d k\<close> scans \<open>cs\<close>, whose first character has index \<open>k\<close>, with \<open>d\<close> further
  loops open, and returns the index of the \<open>]\<close> met at depth 0.
\<close>

fun find_close :: "string \<Rightarrow> nat \<Rightarrow> nat \<Rightarrow> nat option" where
  "find_close [] d k = None"
| "find_close (c # cs) d k =
     (if c = CHR '']'' then (case d of 0 \<Rightarrow> Some k | Suc d' \<Rightarrow> find_close cs d' (Suc k))
      else if c = CHR ''['' then find_close cs (Suc d) (Suc k)
      else find_close cs d (Suc k))"

definition matching_close :: "string \<Rightarrow> nat \<Rightarrow> nat option" where
  "matching_close ops i = find_close (drop (Suc i) ops) 0 (Suc i)"

text \<open>
  \<open>nesting fp d\<close> scans a source text at depth \<open>d\<close>: \<open>None\<close> when a \<open>]\<close> comes with no \<open>[\<close>
  pending, otherwise the number of \<open>[\<close> still unmatched at the end.
\<close>

fun nesting :: "string \<Rightarrow> nat \<Rightarrow> nat option" where
  "nesting [] d = Some d"
| "nesting (c # cs) d =
     (if c = CHR ''['' then nesting cs (Suc d)
      else if c = CHR '']'' then (case d of 0 \<Rightarrow> None | Suc d' \<Rightarrow> nesting cs d')
      else nesting cs d)"

definition well_formed :: "string \<Rightarrow> bool" where
  "well_formed fp \<longleftrightarrow> nesting fp 0 = Some 0"

text \<open>
  The invariant of the scan, on the instruction characters \<open>ops\<close>, the \<open>loop\<close> fields
  \<open>lps\<close> and the loop stack \<open>st\<close> (most recent entry first): \<open>paired\<close> for the brackets
  already matched, \<open>waiting\<close> for the entries of the stack.
\<close>

definition paired :: "string \<Rightarrow> nat option list \<Rightarrow> nat \<Rightarrow> nat \<Rightarrow> bool" where
  "paired ops lps i j \<longleftrightarrow>
     i < j \<and> j < length ops \<and> ops ! i = CHR ''['' \<and> ops ! j = CHR '']''
     \<and> lps ! i = Some j \<and> lps ! j = Some i
     \<and> (\<forall>rest. find_close (drop (Suc i) ops @ rest) 0 (Suc i) = Some j)"

fun waiting :: "string \<Rightarrow> nat option list \<Rightarrow> nat list \<Rightarrow> nat \<Rightarrow> bool" where
  "waiting ops lps [] d = True"
| "waiting ops lps (i # st) d =
     (i < length ops \<and> ops ! i = CHR ''['' \<and> lps ! i = None
      \<and> (\<forall>rest. find_close (drop (Suc i) ops @ rest) 0 (Suc i) = find_close rest d (length ops))
      \<and> waiting ops lps st (Suc d))"

definition linked :: "string \<Rightarrow> nat option list \<Rightarrow> nat list \<Rightarrow> bool" where
  "linked ops lps st \<longleftrightarrow>
     length lps = length ops \<and> distinct st \<and> waiting ops lps st 0
     \<and> (\<forall>i<length ops. ops ! i = CHR ''['' \<longrightarrow> i \<in> set st \<or> (\<exists>j. paired ops lps i j))
     \<and> (\<forall>j<length ops. ops ! j = CHR '']'' \<longrightarrow> (\<exists>i. paired ops lps i j))"

definition scan_inv :: "state \<Rightarrow> bool" where
  "scan_inv s \<longleftrightarrow>
     ii s = length (im s) \<and> linked (map instruction (im s)) (map loop (im s)) (rev (ls s))"

section \<open>Properties\<close>

subsection \<open>The switch of the execution loop\<close>





lemma exec_comma:
  "instruction (im s ! ii s) = CHR '','' \<Longrightarrow> quantity (im s ! ii s) = Some q
     \<Longrightarrow> exec_instruction s = op_in q s"
  by (simp add: exec_instruction_def with_quantity_def)

lemma cell_set_cell: "in_cells s \<Longrightarrow> cell (set_cell v s) = v"
  by (simp add: in_cells_def cell_def set_cell_def nat_less_iff)

lemma long_id: "is_long x \<Longrightarrow> long x = x"
proof -
  assume "is_long x"
  then have "0 \<le> x - LONG_MIN" "x - LONG_MIN < 2 ^ 64"
    by (simp_all add: is_long_def LONG_MIN_def LONG_MAX_def)
  then have "(x - LONG_MIN) mod 2 ^ 64 = x - LONG_MIN"
    by (rule mod_pos_pos_trivial)
  then show ?thesis
    by (simp add: long_def)
qed



lemmas sample_simps = sample_def after_options_def defaults_def in_cells_def cell_def


subsection \<open>Reading a byte\<close>

text \<open>
  Claim C10. A repetition of \<open>,\<close> that obtains a byte \<open>b\<close> stores its value in the current
  cell as it is: \<open>va\<close> and \<open>vb\<close> are not consulted, so when \<open>vb\<close> is smaller than the byte's
  value, or \<open>va\<close> greater, the cell afterwards holds a value outside \<open>[va, vb]\<close>.
\<close>

theorem read_stores_raw_byte:
  assumes "stdin s = b # rest" and "in_cells s"
  shows "\<exists>s'. read_once s = Inr s' \<and> cell s' = of_char b \<and> stdin s' = rest
           \<and> va s' = va s \<and> vb s' = vb s
           \<and> (vb s < of_char b \<or> of_char b < va s \<longrightarrow> \<not> (va s' \<le> cell s' \<and> cell s' \<le> vb s'))"
proof -
  let ?t = "s\<lparr>stdin := rest\<rparr>"
  have t: "in_cells ?t" using assms(2) by (simp add: in_cells_def)
  have r: "read_once s = Inr (set_cell (of_char b) ?t)"
    using assms(1) t by (simp add: read_once_def store_def)
  have c: "cell (set_cell (of_char b) ?t) = of_char b"
    using t by (rule cell_set_cell)
  have f: "stdin (set_cell (of_char b) ?t) = rest" "va (set_cell (of_char b) ?t) = va s"
    "vb (set_cell (of_char b) ?t) = vb s"
    by (simp_all add: set_cell_def)
  show ?thesis
    unfolding r using c f by auto
qed

theorem read_stores_raw_byte_witness:
  "(let s = sample (CHR '','') 1 (defaults\<lparr>opt_b := 10\<rparr>) [0] 0 ''A'' in
      stdin s = CHR ''A'' # [] \<and> in_cells s \<and> (vb s < of_char (CHR ''A'') \<or> of_char (CHR ''A'') < va s)
      \<and> (\<exists>s'. read_once s = Inr s' \<and> cell s' = 65 \<and> stdin s' = [] \<and> va s' = 0 \<and> vb s' = 10
            \<and> \<not> (va s' \<le> cell s' \<and> cell s' \<le> vb s')))"
  using read_stores_raw_byte [of "sample (CHR '','') 1 (defaults\<lparr>opt_b := 10\<rparr>) [0] 0 ''A''" "CHR ''A''" "[]"]
  by (simp add: sample_simps Let_def)

subsection \<open>Whole runs at concrete inputs\<close>

text \<open>
  Claim C2, at the input \<open>-\<close> with the default options (range 0 to 255, value policy
  \<open>w\<close>) and three cells: the candidate is \<open>-1\<close>, and \<open>wrap\<close> returns
  \<open>(-1 - 0) % 256 + 0\<close>, which is \<open>-1\<close> in C, where \<open>%\<close> truncates towards zero. The cell
  holds \<open>-1\<close>, outside the range, where the claim has 255.
\<close>

theorem decrement_wrap_below_range:
  "map_option (map_sum id cm) (main 1 (defaults\<lparr>opt_c := 3\<rparr>) ''-'' []) = Some (Inr [- 1, 0, 0])"
  by code_simp

text \<open>
  Claim C3, with pointer policy \<open>w\<close> and ten cells: \<open>wrap\<close> is called with the bounds 0 and
  \<open>cn\<close>, so it reduces modulo \<open>cn + 1\<close>, and with the remainder of C. The input \<open><\<close> at cell
  index 0 leaves the index at \<open>-1\<close> (the claim has 9); ten \<open>>\<close> from index 0 leave it at 10
  (the claim has 0). Neither is an index of the cell memory.
\<close>

theorem pointer_wrap_out_of_range:
  "map_option (map_sum id ci) (main 1 (defaults\<lparr>opt_w := CHR ''w'', opt_c := 10\<rparr>) ''<'' [])
     = Some (Inr (- 1))
   \<and> map_option (map_sum id ci)
        (main 1 (defaults\<lparr>opt_w := CHR ''w'', opt_c := 10\<rparr>) ''>>>>>>>>>>'' [])
     = Some (Inr 10)"
  by code_simp

text \<open>
  Claim C4, at the input \<open>+,\<close> with EOF policy \<open>x\<close> and nothing to read: the case
  \<open>BF_EOF_NOCHG\<close> leaves \<open>k\<close> equal to \<open>EOF\<close> and \<open>cm[ci] = k\<close> follows, so the cell that held 1
  holds \<open>-1\<close> afterwards, where the claim has it unmodified.
\<close>

theorem eof_nochange_stores_eof:
  "map_option (map_sum id cm) (main 2 (defaults\<lparr>opt_e := CHR ''x'', opt_c := 3\<rparr>) ''+,'' [])
     = Some (Inr [- 1, 0, 0])"
  by code_simp

text \<open>
  Claim C7, at the input \<open>[]\<close>: neither bracket case of the scan assigns \<open>quantity\<close>, so
  both instructions have the field as \<open>malloc\<close> left it, and the dump passes that to
  \<open>printf\<close>; the claim has the count 1.
\<close>

theorem bracket_quantity_unassigned:
  "map_sum id (map quantity \<circ> im) (compile (after_options defaults []) ''[]'') = Inr [None, None]
   \<and> main 0 (defaults\<lparr>opt_m := CHR ''d''\<rparr>) ''[]'' []
       = Some (Inl (Undefined ''quantity never assigned''))"
  by code_simp

text \<open>
  Claim C1 as stated fails at the input \<open>+[\<close>, which ends with an unmatched \<open>[\<close>: the scan
  reports nothing, both instructions are executed and \<open>main\<close> returns normally.
\<close>

theorem unmatched_open_runs:
  "final (main 2 (defaults\<lparr>opt_c := 3\<rparr>) ''+['' []) = Some (Inr (2, 0, [1, 0, 0], []))"
  by code_simp

subsection \<open>The scan and the options\<close>

lemma compile_char_scan_part:
  "compile_char i (scan_part s t) = map_sum id (\<lambda>s'. scan_part s' t) (compile_char i s)"
  by (simp add: compile_char_def scan_part_def Let_def)

lemma compile_loop_scan_part:
  "compile_loop fp (scan_part s t) = map_sum id (\<lambda>s'. scan_part s' t) (compile_loop fp s)"
proof (induction fp arbitrary: s)
  case Nil
  show ?case by simp
next
  case (Cons i fp)
  show ?case
  proof (cases "compile_char i s")
    case (Inl e)
    then show ?thesis by (simp add: compile_char_scan_part)
  next
    case (Inr s')
    then show ?thesis by (simp add: compile_char_scan_part Cons.IH)
  qed
qed

text \<open>
  Claim C9. The scan of a source text gives the same instruction memory (or stops in
  the same way) whatever the options and the pending input are.
\<close>

theorem compile_config_independent:
  "map_sum id im (compile (after_options c1 inp1) fp)
   = map_sum id im (compile (after_options c2 inp2) fp)"
proof -
  let ?s1 = "(after_options c1 inp1)\<lparr>ii := 0\<rparr>" and ?s2 = "(after_options c2 inp2)\<lparr>ii := 0\<rparr>"
  have "?s1 = scan_part ?s2 ?s1"
    by (simp add: scan_part_def after_options_def)
  then have "compile_loop fp ?s1 = map_sum id (\<lambda>s'. scan_part s' ?s1) (compile_loop fp ?s2)"
    using compile_loop_scan_part [of fp ?s2 ?s1] by simp
  then show ?thesis
    by (cases "compile_loop fp ?s2") (simp_all add: compile_def scan_part_def)
qed

subsection \<open>Folding\<close>

lemma map_update_last:
  "xs \<noteq> [] \<Longrightarrow> map f (xs[length xs - Suc 0 := y]) = butlast (map f xs) @ [f y]"
  by (induction xs rule: rev_induct) simp_all

lemma map_update_same:
  "k < length xs \<Longrightarrow> f y = f (xs ! k) \<Longrightarrow> map f (xs[k := y]) = map f xs"
  by (simp add: map_update list_update_same_conv)

lemma compile_char_shown:
  assumes "compile_char i s = Inr s'"
  shows "map shown (im s') = emit (map shown (im s)) i"
proof (cases "foldable i")
  case True
  show ?thesis
  proof (cases "im s \<noteq> [] \<and> i = instruction (last (im s))")
    case True
    with \<open>foldable i\<close> assms
    have s': "s' = s\<lparr>im := (im s)[length (im s) - 1 :=
                  (last (im s))\<lparr>quantity := map_option Suc (quantity (last (im s)))\<rparr>]\<rparr>"
      by (simp add: compile_char_def)
    from True have "fst (last (map shown (im s))) = i"
      by (simp add: last_map shown_def)
    with True \<open>foldable i\<close> show ?thesis
      by (simp add: s' emit_def map_update_last last_map shown_def)
  next
    case False
    with \<open>foldable i\<close> assms
    have s': "s' = s\<lparr>im := im s @ [\<lparr>instruction = i, quantity = Some 1, loop = None\<rparr>],
                  ii := ii s + 1\<rparr>"
      by (simp add: compile_char_def)
    from False have n: "\<not> (map shown (im s) \<noteq> [] \<and> i = fst (last (map shown (im s))))"
      by (auto simp: last_map shown_def)
    have "emit (map shown (im s)) i = map shown (im s) @ [(i, Some 1)]"
      by (simp only: emit_def if_P [OF \<open>foldable i\<close>] if_not_P [OF n])
    then show ?thesis
      by (simp add: s' shown_def)
  qed
next
  case nf: False
  show ?thesis
  proof (cases "i = CHR ''[''")
    case True
    with nf assms show ?thesis
      by (auto simp: compile_char_def emit_def shown_def)
  next
    case no: False
    show ?thesis
    proof (cases "i = CHR '']''")
      case True
      let ?im1 = "im s @ [\<lparr>instruction = i, quantity = None, loop = Some (last (ls s))\<rparr>]"
      from True nf no assms have b: "last (ls s) < length ?im1"
        by (auto simp: compile_char_def Let_def split: if_splits)
      with True nf no assms
      have s': "im s' = ?im1[last (ls s) := (?im1 ! last (ls s))\<lparr>loop := Some (ii s)\<rparr>]"
        by (auto simp: compile_char_def Let_def split: if_splits)
      have "map shown (im s') = map shown ?im1"
        unfolding s' using b by (intro map_update_same) (simp_all add: shown_def)
      with True nf show ?thesis
        by (simp add: emit_def shown_def)
    next
      case False
      with nf no assms show ?thesis
        by (simp add: compile_char_def emit_def)
    qed
  qed
qed

lemma compile_loop_shown:
  "compile_loop fp s = Inr s' \<Longrightarrow> map shown (im s') = foldl emit (map shown (im s)) fp"
proof (induction fp arbitrary: s)
  case Nil
  then show ?case by simp
next
  case (Cons i fp)
  then show ?case
    by (cases "compile_char i s") (simp_all add: compile_char_shown)
qed

lemma emit_fold_runs:
  "(foldable c \<longrightarrow>
      foldl emit (ys @ [(c, Some k)]) fp
      = ys @ [(c, Some (k + length (takeWhile (\<lambda>x. x = c) (filter operator fp))))]
        @ fold_runs (dropWhile (\<lambda>x. x = c) (filter operator fp)))
   \<and> (acc = [] \<or> \<not> foldable (fst (last acc)) \<longrightarrow>
        foldl emit acc fp = acc @ fold_runs (filter operator fp))"
proof (induction fp arbitrary: ys c k acc)
  case Nil
  show ?case by simp
next
  case (Cons i fp)
  note IH1 = Cons.IH [THEN conjunct1, rule_format]
  note IH2 = Cons.IH [THEN conjunct2, rule_format]
  show ?case
  proof (intro conjI impI)
    assume c: "foldable c"
    show "foldl emit (ys @ [(c, Some k)]) (i # fp)
      = ys @ [(c, Some (k + length (takeWhile (\<lambda>x. x = c) (filter operator (i # fp)))))]
        @ fold_runs (dropWhile (\<lambda>x. x = c) (filter operator (i # fp)))"
    proof (cases "i = c")
      case True
      with c have "emit (ys @ [(c, Some k)]) i = ys @ [(c, Some (Suc k))]"
        by (simp add: emit_def)
      with True c show ?thesis
        by (simp add: IH1 operator_def)
    next
      case ne: False
      show ?thesis
      proof (cases "foldable i")
        case True
        with ne have "emit (ys @ [(c, Some k)]) i = (ys @ [(c, Some k)]) @ [(i, Some 1)]"
          by (simp add: emit_def)
        moreover have "foldl emit ((ys @ [(c, Some k)]) @ [(i, Some (Suc 0))]) fp
            = (ys @ [(c, Some k)])
              @ [(i, Some (Suc 0 + length (takeWhile (\<lambda>x. x = i) (filter operator fp))))]
              @ fold_runs (dropWhile (\<lambda>x. x = i) (filter operator fp))"
          using True by (rule IH1)
        ultimately show ?thesis
          using True ne by (simp add: operator_def)
      next
        case nf: False
        show ?thesis
        proof (cases "operator i")
          case True
          with nf have "emit (ys @ [(c, Some k)]) i = (ys @ [(c, Some k)]) @ [(i, None)]"
            by (simp add: emit_def operator_def)
          with True nf ne show ?thesis
            by (simp add: IH2 [of "(ys @ [(c, Some k)]) @ [(i, None)]"] del: append_assoc)
        next
          case False
          then have "emit (ys @ [(c, Some k)]) i = ys @ [(c, Some k)]"
            by (simp add: emit_def operator_def)
          with False c show ?thesis
            by (simp add: IH1)
        qed
      qed
    qed
  next
    assume a: "acc = [] \<or> \<not> foldable (fst (last acc))"
    show "foldl emit acc (i # fp) = acc @ fold_runs (filter operator (i # fp))"
    proof (cases "foldable i")
      case True
      with a have "emit acc i = acc @ [(i, Some 1)]"
        by (auto simp: emit_def)
      moreover have "foldl emit (acc @ [(i, Some (Suc 0))]) fp
            = acc @ [(i, Some (Suc 0 + length (takeWhile (\<lambda>x. x = i) (filter operator fp))))]
              @ fold_runs (dropWhile (\<lambda>x. x = i) (filter operator fp))"
        using True by (rule IH1)
      ultimately show ?thesis
        using True by (simp add: operator_def)
    next
      case nf: False
      show ?thesis
      proof (cases "operator i")
        case True
        with nf have "emit acc i = acc @ [(i, None)]"
          by (simp add: emit_def operator_def)
        with True nf show ?thesis
          by (simp add: IH2 [of "acc @ [(i, None)]"])
      next
        case False
        then have "emit acc i = acc"
          by (simp add: emit_def operator_def)
        with False a show ?thesis
          by (simp add: IH2)
      qed
    qed
  qed
qed

text \<open>
  Claim C5. The characters that are not operators produce nothing and do not stop the
  scan; of the operator characters that remain, every maximal run of \<open>k\<close> equal foldable
  characters is exactly one instruction, with that character and the quantity \<open>k\<close>.
\<close>

theorem folding:
  assumes "compile (after_options c inp) fp = Inr s"
  shows "map shown (im s) = fold_runs (filter operator fp)"
proof -
  from assms have "map shown (im s) = foldl emit [] fp"
    by (simp add: compile_def compile_loop_shown after_options_def)
  then show ?thesis
    using emit_fold_runs [THEN conjunct2, of "[]" fp] by simp
qed

theorem folding_witness:
  "(\<exists>s. compile (after_options defaults []) ''++ +x>>[,-]...'' = Inr s
      \<and> map shown (im s) = [(CHR ''+'', Some 3), (CHR ''>'', Some 2), (CHR ''['', None),
           (CHR '','', Some 1), (CHR ''-'', Some 1), (CHR '']'', None), (CHR ''.'', Some 3)])"
proof -
  obtain s where s: "compile (after_options defaults []) ''++ +x>>[,-]...'' = Inr s"
    by (cases "compile (after_options defaults []) ''++ +x>>[,-]...''") (simp_all, code_simp)
  from folding [OF s] have "map shown (im s) = fold_runs (filter operator ''++ +x>>[,-]...'')" .
  also have "\<dots> = [(CHR ''+'', Some 3), (CHR ''>'', Some 2), (CHR ''['', None),
           (CHR '','', Some 1), (CHR ''-'', Some 1), (CHR '']'', None), (CHR ''.'', Some 3)]"
    by code_simp
  finally have m: "map shown (im s) = [(CHR ''+'', Some 3), (CHR ''>'', Some 2), (CHR ''['', None),
           (CHR '','', Some 1), (CHR ''-'', Some 1), (CHR '']'', None), (CHR ''.'', Some 3)]" .
  show ?thesis
    by (rule exI [of _ s]) (simp only: s m simp_thms)
qed

subsection \<open>Bracket matching\<close>

lemma drop_snoc_app:
  "i < length ops \<Longrightarrow> drop (Suc i) (ops @ [c]) @ rest = drop (Suc i) ops @ c # rest"
  by simp

lemma paired_append:
  assumes "paired ops lps i j" and "length lps = length ops"
  shows "paired (ops @ [c]) (lps @ [x]) i j"
proof -
  from assms(1) have b: "i < j" "j < length ops" "i < length ops"
    by (simp_all add: paired_def)
  have f: "find_close (drop (Suc i) (ops @ [c]) @ rest) 0 (Suc i) = Some j" for rest
    using assms(1) b(3) by (simp only: drop_snoc_app) (simp add: paired_def)
  from assms b show ?thesis
    unfolding paired_def using f by (simp add: nth_append)
qed

lemma paired_update:
  assumes "paired ops lps i j" and "lps ! t = None"
  shows "paired ops (lps[t := y]) i j"
proof -
  from assms have "i \<noteq> t" "j \<noteq> t"
    by (auto simp: paired_def)
  with assms(1) show ?thesis
    by (simp add: paired_def)
qed

lemma waiting_set:
  "waiting ops lps st d \<Longrightarrow> i \<in> set st \<Longrightarrow> i < length ops \<and> ops ! i = CHR ''['' \<and> lps ! i = None"
  by (induction st arbitrary: d) auto

lemma waiting_append_other:
  assumes "c \<noteq> CHR ''[''" and "c \<noteq> CHR '']''" and "length lps = length ops"
  shows "waiting ops lps st d \<Longrightarrow> waiting (ops @ [c]) (lps @ [x]) st d"
proof (induction st arbitrary: d)
  case Nil
  show ?case by simp
next
  case (Cons i st)
  then have i: "i < length ops" by simp
  have "find_close (drop (Suc i) (ops @ [c]) @ rest) 0 (Suc i)
        = find_close rest d (length (ops @ [c]))" for rest
    using Cons.prems i assms(1,2) by (simp only: drop_snoc_app) simp
  with Cons i assms(3) show ?case
    by (simp add: nth_append)
qed

lemma waiting_append_open:
  assumes "length lps = length ops"
  shows "waiting ops lps st d \<Longrightarrow> waiting (ops @ [CHR ''['']) (lps @ [x]) st (Suc d)"
proof (induction st arbitrary: d)
  case Nil
  show ?case by simp
next
  case (Cons i st)
  then have i: "i < length ops" by simp
  have "find_close (drop (Suc i) (ops @ [CHR ''['']) @ rest) 0 (Suc i)
        = find_close rest (Suc d) (length (ops @ [CHR ''['']))" for rest
    using Cons.prems i by (simp only: drop_snoc_app) simp
  with Cons i assms show ?case
    by (simp add: nth_append)
qed

lemma waiting_append_close:
  assumes "length lps = length ops"
  shows "waiting ops lps st (Suc d) \<Longrightarrow> t \<notin> set st
    \<Longrightarrow> waiting (ops @ [CHR '']'']) ((lps @ [x])[t := y]) st d"
proof (induction st arbitrary: d)
  case Nil
  show ?case by simp
next
  case (Cons i st)
  then have i: "i < length ops" and it: "i \<noteq> t" by auto
  have "find_close (drop (Suc i) (ops @ [CHR '']'']) @ rest) 0 (Suc i)
        = find_close rest d (length (ops @ [CHR '']'']))" for rest
    using Cons.prems(1) i by (simp only: drop_snoc_app) simp
  with Cons i it assms show ?case
    by (simp add: nth_append)
qed

lemma linked_other:
  assumes "linked ops lps st" and "c \<noteq> CHR ''[''" and "c \<noteq> CHR '']''"
  shows "linked (ops @ [c]) (lps @ [None]) st"
proof -
  from assms(1) have len: "length lps = length ops" and d: "distinct st"
    and w: "waiting ops lps st 0"
    and o: "\<And>i. i < length ops \<Longrightarrow> ops ! i = CHR ''['' \<Longrightarrow> i \<in> set st \<or> (\<exists>j. paired ops lps i j)"
    and c: "\<And>j. j < length ops \<Longrightarrow> ops ! j = CHR '']'' \<Longrightarrow> \<exists>i. paired ops lps i j"
    by (auto simp: linked_def)
  have w': "waiting (ops @ [c]) (lps @ [None]) st 0"
    using assms(2,3) len w by (rule waiting_append_other)
  have o': "i \<in> set st \<or> (\<exists>j. paired (ops @ [c]) (lps @ [None]) i j)"
    if "i < length (ops @ [c])" "(ops @ [c]) ! i = CHR ''[''" for i
  proof -
    from that assms(2) have "i < length ops" "ops ! i = CHR ''[''"
      by (auto simp: nth_append less_Suc_eq)
    from o [OF this] show ?thesis
      using paired_append [OF _ len] by blast
  qed
  have c': "\<exists>i. paired (ops @ [c]) (lps @ [None]) i j"
    if "j < length (ops @ [c])" "(ops @ [c]) ! j = CHR '']''" for j
  proof -
    from that assms(3) have "j < length ops" "ops ! j = CHR '']''"
      by (auto simp: nth_append less_Suc_eq)
    from c [OF this] show ?thesis
      using paired_append [OF _ len] by blast
  qed
  show ?thesis
    unfolding linked_def using len d w' o' c' by simp
qed

lemma linked_open:
  assumes "linked ops lps st"
  shows "linked (ops @ [CHR ''['']) (lps @ [None]) (length ops # st)"
proof -
  let ?ops = "ops @ [CHR ''['']" and ?lps = "lps @ [None]"
  from assms have len: "length lps = length ops" and d: "distinct st"
    and w: "waiting ops lps st 0"
    and o: "\<And>i. i < length ops \<Longrightarrow> ops ! i = CHR ''['' \<Longrightarrow> i \<in> set st \<or> (\<exists>j. paired ops lps i j)"
    and c: "\<And>j. j < length ops \<Longrightarrow> ops ! j = CHR '']'' \<Longrightarrow> \<exists>i. paired ops lps i j"
    by (auto simp: linked_def)
  have new: "length ops \<notin> set st"
    using waiting_set [OF w] by auto
  have w1: "waiting ?ops ?lps st (Suc 0)"
    using len w by (rule waiting_append_open)
  have w': "waiting ?ops ?lps (length ops # st) 0"
    using w1 len by (simp add: nth_append)
  have o': "i \<in> set (length ops # st) \<or> (\<exists>j. paired ?ops ?lps i j)"
    if "i < length ?ops" "?ops ! i = CHR ''[''" for i
  proof (cases "i = length ops")
    case True
    then show ?thesis by simp
  next
    case False
    with that have "i < length ops" "ops ! i = CHR ''[''"
      by (auto simp: nth_append less_Suc_eq)
    from o [OF this] show ?thesis
      using paired_append [OF _ len, of i _ "CHR ''[''" None] by auto
  qed
  have c': "\<exists>i. paired ?ops ?lps i j"
    if "j < length ?ops" "?ops ! j = CHR '']''" for j
  proof -
    from that have "j < length ops" "ops ! j = CHR '']''"
      by (auto simp: nth_append less_Suc_eq split: if_splits)
    from c [OF this] show ?thesis
      using paired_append [OF _ len] by blast
  qed
  show ?thesis
    unfolding linked_def using len d new w' o' c' by simp
qed

lemma linked_close:
  assumes "linked ops lps (t # st)"
  shows "linked (ops @ [CHR '']'']) ((lps @ [Some t])[t := Some (length ops)]) st"
proof -
  let ?ops = "ops @ [CHR '']'']" and ?lps = "(lps @ [Some t])[t := Some (length ops)]"
  from assms have len: "length lps = length ops" and d: "distinct st" and new: "t \<notin> set st"
    and t: "t < length ops" "ops ! t = CHR ''[''" "lps ! t = None"
    and f: "\<And>rest. find_close (drop (Suc t) ops @ rest) 0 (Suc t) = find_close rest 0 (length ops)"
    and w: "waiting ops lps st (Suc 0)"
    and o: "\<And>i. i < length ops \<Longrightarrow> ops ! i = CHR ''['' \<Longrightarrow>
              i \<in> set (t # st) \<or> (\<exists>j. paired ops lps i j)"
    and c: "\<And>j. j < length ops \<Longrightarrow> ops ! j = CHR '']'' \<Longrightarrow> \<exists>i. paired ops lps i j"
    by (auto simp: linked_def)
  have keep: "paired ?ops ?lps i j" if "paired ops lps i j" for i j
  proof -
    have "paired ?ops (lps @ [Some t]) i j"
      using that len by (rule paired_append)
    moreover have "(lps @ [Some t]) ! t = None"
      using t len by (simp add: nth_append)
    ultimately show ?thesis by (rule paired_update)
  qed
  have "find_close (drop (Suc t) ?ops @ rest) 0 (Suc t) = Some (length ops)" for rest
    using t(1) f by (simp only: drop_snoc_app) simp
  then have pair: "paired ?ops ?lps t (length ops)"
    using t len by (simp add: paired_def nth_append)
  have w': "waiting ?ops ?lps st 0"
    using len w new by (rule waiting_append_close)
  have o': "i \<in> set st \<or> (\<exists>j. paired ?ops ?lps i j)"
    if "i < length ?ops" "?ops ! i = CHR ''[''" for i
  proof -
    from that have "i < length ops" "ops ! i = CHR ''[''"
      by (auto simp: nth_append less_Suc_eq split: if_splits)
    from o [OF this] show ?thesis
      using pair keep by auto
  qed
  have c': "\<exists>i. paired ?ops ?lps i j"
    if "j < length ?ops" "?ops ! j = CHR '']''" for j
  proof (cases "j = length ops")
    case True
    with pair show ?thesis by blast
  next
    case False
    with that have "j < length ops" "ops ! j = CHR '']''"
      by (auto simp: nth_append less_Suc_eq)
    from c [OF this] show ?thesis
      using keep by blast
  qed
  show ?thesis
    unfolding linked_def using len d w' o' c' by simp
qed

lemma scan_inv_step:
  assumes "scan_inv s" and "i = CHR '']'' \<longrightarrow> ls s \<noteq> []"
  shows "\<exists>s'. compile_char i s = Inr s' \<and> scan_inv s'
           \<and> length (ls s') = (if i = CHR ''['' then Suc (length (ls s))
                                else if i = CHR '']'' then length (ls s) - 1
                                else length (ls s))"
proof -
  let ?ops = "map instruction (im s)" and ?lps = "map loop (im s)"
  from assms(1) have n: "ii s = length (im s)" and l: "linked ?ops ?lps (rev (ls s))"
    by (simp_all add: scan_inv_def)
  show ?thesis
  proof (cases "foldable i")
    case True
    then have nb: "i \<noteq> CHR ''[''" "i \<noteq> CHR '']''"
      by (auto simp: foldable_def)
    show ?thesis
    proof (cases "im s \<noteq> [] \<and> i = instruction (last (im s))")
      case same: True
      let ?x = "(last (im s))\<lparr>quantity := map_option Suc (quantity (last (im s)))\<rparr>"
      let ?s' = "s\<lparr>im := (im s)[length (im s) - 1 := ?x]\<rparr>"
      from same have k: "length (im s) - 1 < length (im s)"
        and x: "im s ! (length (im s) - 1) = last (im s)"
        by (simp_all add: last_conv_nth)
      have "map instruction (im ?s') = ?ops" "map loop (im ?s') = ?lps"
        using k x by (simp_all add: map_update_same)
      with n l have "scan_inv ?s'"
        by (simp add: scan_inv_def)
      moreover have "compile_char i s = Inr ?s'"
        using True same by (simp add: compile_char_def)
      ultimately show ?thesis
        using nb by auto
    next
      case False
      let ?s' = "s\<lparr>im := im s @ [\<lparr>instruction = i, quantity = Some 1, loop = None\<rparr>],
                    ii := ii s + 1\<rparr>"
      have "scan_inv ?s'"
        using n linked_other [OF l nb] by (simp add: scan_inv_def)
      moreover have "compile_char i s = Inr ?s'"
        unfolding compile_char_def by (simp only: if_P [OF True] if_not_P [OF False])
      ultimately show ?thesis
        using nb by auto
    qed
  next
    case nf: False
    show ?thesis
    proof (cases "i = CHR ''[''")
      case True
      let ?s' = "s\<lparr>im := im s @ [\<lparr>instruction = i, quantity = None, loop = None\<rparr>],
                    ls := ls s @ [ii s], ii := ii s + 1\<rparr>"
      have "scan_inv ?s'"
        using n True linked_open [OF l] by (simp add: scan_inv_def)
      moreover have "compile_char i s = Inr ?s'"
        using nf True by (simp add: compile_char_def)
      ultimately show ?thesis
        using True by auto
    next
      case no: False
      show ?thesis
      proof (cases "i = CHR '']''")
        case True
        with assms(2) have ne: "ls s \<noteq> []" by simp
        let ?t = "last (ls s)"
        let ?im1 = "im s @ [\<lparr>instruction = i, quantity = None, loop = Some ?t\<rparr>]"
        let ?s' = "s\<lparr>im := ?im1[?t := (?im1 ! ?t)\<lparr>loop := Some (ii s)\<rparr>],
                      ls := butlast (ls s), ii := ii s + 1\<rparr>"
        from ne have r: "rev (ls s) = ?t # rev (butlast (ls s))"
          by (induction "ls s" rule: rev_induct) simp_all
        from l have l': "linked ?ops ?lps (?t # rev (butlast (ls s)))"
          by (simp only: r)
        then have t: "?t < length (im s)"
          by (simp add: linked_def)
        then have t1: "?t < length ?im1" by simp
        have "map instruction (im ?s') = ?ops @ [CHR '']'']"
          using t1 True by (simp add: map_update_same del: length_append)
        moreover have "map loop (im ?s') = (?lps @ [Some ?t])[?t := Some (length ?ops)]"
          using n by (simp add: map_update)
        ultimately have "scan_inv ?s'"
          using n linked_close [OF l'] by (simp add: scan_inv_def)
        moreover have "compile_char i s = Inr ?s'"
          using nf no True ne t by (simp add: compile_char_def Let_def)
        ultimately show ?thesis
          using True no by auto
      next
        case False
        with nf no have "compile_char i s = Inr s"
          by (simp add: compile_char_def)
        with assms(1) no False show ?thesis by simp
      qed
    qed
  qed
qed

lemma scan_inv_loop:
  "scan_inv s \<Longrightarrow> nesting fp (length (ls s)) = Some d
     \<Longrightarrow> \<exists>s'. compile_loop fp s = Inr s' \<and> scan_inv s' \<and> length (ls s') = d"
proof (induction fp arbitrary: s)
  case Nil
  then show ?case by simp
next
  case (Cons i fp)
  from Cons.prems(2) have "i = CHR '']'' \<longrightarrow> ls s \<noteq> []"
    by (auto split: nat.splits)
  from scan_inv_step [OF Cons.prems(1) this]
  obtain s1 where s1: "compile_char i s = Inr s1" "scan_inv s1"
    "length (ls s1) = (if i = CHR ''['' then Suc (length (ls s))
                       else if i = CHR '']'' then length (ls s) - 1 else length (ls s))"
    by blast
  from Cons.prems(2) s1(3) have "nesting fp (length (ls s1)) = Some d"
    by (auto split: if_splits nat.splits)
  from Cons.IH [OF s1(2) this] s1(1) show ?case by simp
qed

lemma scan_inv_start: "scan_inv ((after_options c inp)\<lparr>ii := 0\<rparr>)"
  by (simp add: scan_inv_def linked_def after_options_def)

lemma compile_nesting:
  assumes "nesting fp 0 = Some d"
  shows "\<exists>s. compile (after_options c inp) fp = Inr s \<and> scan_inv s \<and> length (ls s) = d"
  unfolding compile_def
  by (rule scan_inv_loop [OF scan_inv_start]) (simp add: after_options_def assms)

lemma compile_char_mode: "compile_char i s = Inr s' \<Longrightarrow> mode s' = mode s"
  by (auto simp: compile_char_def Let_def split: if_splits)

lemma compile_loop_mode: "compile_loop fp s = Inr s' \<Longrightarrow> mode s' = mode s"
proof (induction fp arbitrary: s)
  case Nil
  then show ?case by simp
next
  case (Cons i fp)
  then show ?case
    by (cases "compile_char i s") (auto dest: compile_char_mode)
qed

lemma compile_mode: "compile (after_options c inp) fp = Inr s \<Longrightarrow> mode s = opt_m c"
  by (auto simp: compile_def after_options_def dest: compile_loop_mode)

text \<open>
  Claim C6. For a source whose brackets are well formed the scan succeeds, and in the
  instruction memory every \<open>[\<close> at index \<open>i\<close> has as its \<open>loop\<close> the index \<open>j\<close> of the \<open>]\<close> that
  closes it at the same depth, with \<open>i < j\<close> and the \<open>loop\<close> of that \<open>]\<close> equal to \<open>i\<close>; every
  \<open>]\<close> has as its \<open>loop\<close> the index of a \<open>[\<close> before it, which is the \<open>[\<close> that it closes and
  whose \<open>loop\<close> points back to it.
\<close>

theorem loop_targets_match:
  assumes "well_formed fp"
  shows "\<exists>s. compile (after_options c inp) fp = Inr s \<and>
     (\<forall>i<length (im s).
        (instruction (im s ! i) = CHR ''['' \<longrightarrow>
           (\<exists>j. loop (im s ! i) = Some j \<and> matching_close (map instruction (im s)) i = Some j
              \<and> i < j \<and> j < length (im s) \<and> instruction (im s ! j) = CHR '']''
              \<and> loop (im s ! j) = Some i))
      \<and> (instruction (im s ! i) = CHR '']'' \<longrightarrow>
           (\<exists>j. loop (im s ! i) = Some j \<and> matching_close (map instruction (im s)) j = Some i
              \<and> j < i \<and> instruction (im s ! j) = CHR ''['' \<and> loop (im s ! j) = Some i)))"
proof -
  from assms have "nesting fp 0 = Some 0"
    by (simp add: well_formed_def)
  from compile_nesting [OF this, of c inp]
  obtain s where s: "compile (after_options c inp) fp = Inr s" "scan_inv s" "ls s = []"
    by auto
  let ?ops = "map instruction (im s)" and ?lps = "map loop (im s)"
  from s(2,3) have
    o: "\<And>i. i < length (im s) \<Longrightarrow> instruction (im s ! i) = CHR ''['' \<Longrightarrow> \<exists>j. paired ?ops ?lps i j"
    and c: "\<And>j. j < length (im s) \<Longrightarrow> instruction (im s ! j) = CHR '']'' \<Longrightarrow> \<exists>i. paired ?ops ?lps i j"
    by (simp_all add: scan_inv_def linked_def)
  have p: "loop (im s ! i) = Some j \<and> matching_close ?ops i = Some j \<and> i < j
            \<and> j < length (im s) \<and> instruction (im s ! i) = CHR ''[''
            \<and> instruction (im s ! j) = CHR '']'' \<and> loop (im s ! j) = Some i"
    if "paired ?ops ?lps i j" for i j
  proof -
    from that have "find_close (drop (Suc i) ?ops @ []) 0 (Suc i) = Some j"
      unfolding paired_def by blast
    then have "matching_close ?ops i = Some j"
      by (simp add: matching_close_def)
    moreover from that have "i < length (im s)" "j < length (im s)"
      by (auto simp: paired_def)
    ultimately show ?thesis
      using that by (simp add: paired_def)
  qed
  have "\<exists>j. loop (im s ! i) = Some j \<and> matching_close ?ops i = Some j
              \<and> i < j \<and> j < length (im s) \<and> instruction (im s ! j) = CHR '']''
              \<and> loop (im s ! j) = Some i"
    if "i < length (im s)" "instruction (im s ! i) = CHR ''[''" for i
    using o [OF that] p by blast
  moreover have "\<exists>j. loop (im s ! i) = Some j \<and> matching_close ?ops j = Some i
              \<and> j < i \<and> instruction (im s ! j) = CHR ''['' \<and> loop (im s ! j) = Some i"
    if "i < length (im s)" "instruction (im s ! i) = CHR '']''" for i
    using c [OF that] p by blast
  ultimately show ?thesis
    using s(1) by blast
qed

theorem loop_targets_match_witness:
  "well_formed ''+[>[-]<-]''
   \<and> (\<exists>s. compile (after_options defaults []) ''+[>[-]<-]'' = Inr s
        \<and> map instruction (im s) = ''+[>[-]<-]''
        \<and> map loop (im s) = [None, Some 8, None, Some 5, None, Some 3, None, None, Some 1]
        \<and> matching_close (map instruction (im s)) 1 = loop (im s ! 1)
        \<and> matching_close (map instruction (im s)) 3 = loop (im s ! 3))"
proof -
  have wf: "well_formed ''+[>[-]<-]''"
    by code_simp
  from loop_targets_match [OF wf, of defaults "[]"]
  obtain s where s: "compile (after_options defaults []) ''+[>[-]<-]'' = Inr s"
    and t: "\<forall>i<length (im s). (instruction (im s ! i) = CHR ''['' \<longrightarrow>
           (\<exists>j. loop (im s ! i) = Some j \<and> matching_close (map instruction (im s)) i = Some j
              \<and> i < j \<and> j < length (im s) \<and> instruction (im s ! j) = CHR '']''
              \<and> loop (im s ! j) = Some i))"
    by blast
  have "map_sum id (\<lambda>s. (map instruction (im s), map loop (im s)))
          (compile (after_options defaults []) ''+[>[-]<-]'')
        = Inr (''+[>[-]<-]'', [None, Some 8, None, Some 5, None, Some 3, None, None, Some 1])"
    by code_simp
  with s have ops: "map instruction (im s) = ''+[>[-]<-]''"
    and lps: "map loop (im s) = [None, Some 8, None, Some 5, None, Some 3, None, None, Some 1]"
    by simp_all
  from ops have len: "length (im s) = 9"
    by (simp add: map_eq_Cons_conv) auto
  have i: "instruction (im s ! i) = ''+[>[-]<-]'' ! i" if "i < 9" for i
    using that len ops by (metis nth_map)
  have a1: "1 < length (im s)" and b1: "instruction (im s ! 1) = CHR ''[''"
    and a3: "3 < length (im s)" and b3: "instruction (im s ! 3) = CHR ''[''"
    using len by (simp_all add: i)
  from t [rule_format, OF a1 b1]
  obtain j where "loop (im s ! 1) = Some j" "matching_close (map instruction (im s)) 1 = Some j"
    by blast
  then have m1: "matching_close (map instruction (im s)) 1 = loop (im s ! 1)"
    by (simp only:)
  from t [rule_format, OF a3 b3]
  obtain k where "loop (im s ! 3) = Some k" "matching_close (map instruction (im s)) 3 = Some k"
    by blast
  then have m3: "matching_close (map instruction (im s)) 3 = loop (im s ! 3)"
    by (simp only:)
  show ?thesis
    by (rule conjI [OF wf], rule exI [of _ s], intro conjI) (rule s ops lps m1 m3)+
qed

text \<open>
  Claim C1, amended. The scan checks no bracket and has no diagnostic of its own. For
  every source in which each \<open>]\<close> has a \<open>[\<close> pending before it, whether or not some \<open>[\<close>
  stay unmatched at the end, the scan completes without error; the \<open>d\<close> unmatched \<open>[\<close> are
  left on the loop stack with their \<open>loop\<close> never assigned, and \<open>main\<close> goes on to dump or
  execute the instruction memory.
\<close>

theorem compile_without_bracket_check:
  assumes "nesting fp 0 = Some d"
  shows "\<exists>s. compile (after_options c inp) fp = Inr s \<and> length (ls s) = d
           \<and> (\<forall>i\<in>set (ls s). i < length (im s) \<and> instruction (im s ! i) = CHR ''[''
                 \<and> loop (im s ! i) = None)
           \<and> main n c fp inp =
               (if opt_m c = CHR ''d'' then Some (dump s)
                else if opt_m c = CHR ''r'' then run n s
                else Some (Inl (Die ''invalid mode'')))"
proof -
  from compile_nesting [OF assms, of c inp]
  obtain s where s: "compile (after_options c inp) fp = Inr s" "scan_inv s" "length (ls s) = d"
    by blast
  let ?ops = "map instruction (im s)" and ?lps = "map loop (im s)"
  from s(2) have w: "waiting ?ops ?lps (rev (ls s)) 0"
    by (simp add: scan_inv_def linked_def)
  have "i < length (im s) \<and> instruction (im s ! i) = CHR ''['' \<and> loop (im s ! i) = None"
    if "i \<in> set (ls s)" for i
  proof -
    from that have "i \<in> set (rev (ls s))" by simp
    from waiting_set [OF w this] have "i < length (im s)" "?ops ! i = CHR ''[''" "?lps ! i = None"
      by simp_all
    then show ?thesis by simp
  qed
  moreover have "main n c fp inp =
               (if opt_m c = CHR ''d'' then Some (dump s)
                else if opt_m c = CHR ''r'' then run n s
                else Some (Inl (Die ''invalid mode'')))"
    using s(1) compile_mode [OF s(1)] by (simp add: main_def)
  ultimately show ?thesis
    using s(1,3) by blast
qed

theorem compile_without_bracket_check_witness:
  "nesting ''+['' 0 = Some 1
   \<and> (\<exists>s. compile (after_options (defaults\<lparr>opt_c := 3\<rparr>) []) ''+['' = Inr s
        \<and> length (ls s) = 1 \<and> map loop (im s) = [None, None]
        \<and> main 2 (defaults\<lparr>opt_c := 3\<rparr>) ''+['' [] = run 2 s)"
proof -
  let ?c = "defaults\<lparr>opt_c := 3\<rparr>"
  have n: "nesting ''+['' 0 = Some 1"
    by code_simp
  from compile_without_bracket_check [OF n, of ?c "[]" 2]
  obtain s where s: "compile (after_options ?c []) ''+['' = Inr s"
    and l: "length (ls s) = 1"
    and m: "main 2 ?c ''+['' [] =
               (if opt_m ?c = CHR ''d'' then Some (dump s)
                else if opt_m ?c = CHR ''r'' then run 2 s
                else Some (Inl (Die ''invalid mode'')))"
    by blast
  have "map_sum id (\<lambda>s. map loop (im s)) (compile (after_options ?c []) ''+['') = Inr [None, None]"
    by code_simp
  with s have lps: "map loop (im s) = [None, None]"
    by simp
  from m have r: "main 2 ?c ''+['' [] = run 2 s"
    by (simp add: defaults_def)
  show ?thesis
    by (rule conjI [OF n], rule exI [of _ s], intro conjI) (rule s l lps r)+
qed

subsection \<open>\<open>wrap\<close> on either side of the range\<close>

text \<open>
  Above the range the dividend \<open>v - low\<close> is positive and \<open>wrap\<close> is the mathematical
  reduction into \<open>[low, high]\<close>. Below the range the dividend is negative, the remainder of
  C is not positive, and the result lies in \<open>(low - (high - low + 1), low]\<close>: it is in the
  range only when it is \<open>low\<close> itself.
\<close>

lemma wrap_above:
  assumes "low \<le> high" and "high < v"
  shows "wrap v low high = Inr ((v - low) mod (high - low + 1) + low)"
proof -
  have e: "1 + high - low = high - low + 1" by simp
  from assms have "0 < v - low" "0 < high - low + 1" by simp_all
  then show ?thesis
    unfolding wrap_def c_rem_def e by simp
qed

lemma wrap_above_in_range:
  assumes "low \<le> high" and "high < v" and "wrap v low high = Inr w"
  shows "low \<le> w \<and> w \<le> high"
proof -
  from assms(1) have m: "0 < high - low + 1" by simp
  have "0 \<le> (v - low) mod (high - low + 1)" "(v - low) mod (high - low + 1) < high - low + 1"
    using m by (simp_all only: pos_mod_sign pos_mod_bound)
  with assms show ?thesis
    by (simp add: wrap_above)
qed

lemma wrap_below:
  assumes "low \<le> high" and "v < low"
  shows "wrap v low high = Inr (low - (low - v) mod (high - low + 1))"
proof -
  have e: "1 + high - low = high - low + 1" by simp
  from assms have "v - low < 0" "0 < high - low + 1" by simp_all
  then show ?thesis
    unfolding wrap_def c_rem_def e by simp
qed

lemma wrap_below_not_above_low:
  assumes "low \<le> high" and "v < low" and "wrap v low high = Inr w"
  shows "w \<le> low \<and> low - (high - low + 1) < w"
proof -
  from assms(1) have m: "0 < high - low + 1" by simp
  have "0 \<le> (low - v) mod (high - low + 1)" "(low - v) mod (high - low + 1) < high - low + 1"
    using m by (simp_all only: pos_mod_sign pos_mod_bound)
  with assms show ?thesis
    by (simp add: wrap_below)
qed

lemma increment_wrap_in_range:
  assumes "in_cells s" and "vw s = CHR ''w''" and "va s \<le> vb s" and "vb s < cell s + int q"
    and "is_long (cell s + int q)"
  shows "\<exists>s'. vinc q s = Inr s'
           \<and> cell s' = (cell s + int q - va s) mod (vb s - va s + 1) + va s
           \<and> va s \<le> cell s' \<and> cell s' \<le> vb s"
proof -
  let ?w = "(cell s + int q - va s) mod (vb s - va s + 1) + va s"
  have w: "wrap (cell s + int q) (va s) (vb s) = Inr ?w"
    using assms(3,4) by (rule wrap_above)
  then have "vinc q s = Inr (set_cell ?w s)"
    using assms by (simp add: vinc_def long_id)
  moreover have "cell (set_cell ?w s) = ?w"
    using assms(1) by (rule cell_set_cell)
  moreover have "va s \<le> ?w \<and> ?w \<le> vb s"
    using assms(3,4) w by (rule wrap_above_in_range)
  ultimately show ?thesis by simp
qed

lemma decrement_wrap_not_above_min:
  assumes "in_cells s" and "vw s = CHR ''w''" and "va s \<le> vb s" and "cell s - int q < va s"
    and "is_long (cell s - int q)"
  shows "\<exists>s'. vdec q s = Inr s'
           \<and> cell s' = va s - (va s - (cell s - int q)) mod (vb s - va s + 1)
           \<and> cell s' \<le> va s"
proof -
  let ?w = "va s - (va s - (cell s - int q)) mod (vb s - va s + 1)"
  have w: "wrap (cell s - int q) (va s) (vb s) = Inr ?w"
    using assms(3,4) by (rule wrap_below)
  then have "vdec q s = Inr (set_cell ?w s)"
    using assms by (simp add: vdec_def long_id)
  moreover have "cell (set_cell ?w s) = ?w"
    using assms(1) by (rule cell_set_cell)
  moreover have "?w \<le> va s"
    using wrap_below_not_above_low [OF assms(3,4) w] by simp
  ultimately show ?thesis by simp
qed

subsection \<open>End of input\<close>

text \<open>The value stored by a repetition of \<open>,\<close> that finds the input exhausted, for each
  of the five policies.\<close>

lemma read_once_eof:
  assumes "stdin s = []" and "in_cells s"
  shows "ce s = CHR ''0'' \<Longrightarrow> read_once s = Inr (set_cell 0 s)"
    and "ce s = CHR ''a'' \<Longrightarrow> read_once s = Inr (set_cell (va s) s)"
    and "ce s = CHR ''b'' \<Longrightarrow> read_once s = Inr (set_cell (vb s) s)"
    and "ce s = CHR ''n'' \<Longrightarrow> read_once s = Inr (set_cell (- 1) s)"
    and "ce s = CHR ''x'' \<Longrightarrow> read_once s = Inr (set_cell (- 1) s)"
  using assms by (simp_all add: read_once_def on_eof_def store_def EOF_def)

subsection \<open>The pointer under the policy \<open>w\<close>\<close>

text \<open>
  Both moves call \<open>wrap\<close> with the bounds 0 and \<open>cn\<close>. A move left that leaves the range
  ends at an index that is not positive; a move right that leaves the range ends in
  \<open>[0, cn]\<close>, where \<open>cn\<close> itself is one past the last cell.
\<close>

lemma pointer_wrap_left:
  assumes "cw s = CHR ''w''" and "0 \<le> cn s" and "ci s - int q < 0"
  shows "\<exists>s'. pdec q s = Inr s' \<and> ci s' = - ((int q - ci s) mod (cn s + 1)) \<and> ci s' \<le> 0"
proof -
  have "wrap (ci s - int q) 0 (cn s) = Inr (0 - (0 - (ci s - int q)) mod (cn s - 0 + 1))"
    using assms(2,3) by (rule wrap_below)
  then have "pdec q s = Inr (s\<lparr>ci := - ((int q - ci s) mod (cn s + 1))\<rparr>)"
    using assms(1,3) by (simp add: pdec_def)
  moreover have "0 \<le> (int q - ci s) mod (cn s + 1)"
    using assms(2) by simp
  ultimately show ?thesis by simp
qed

lemma pointer_wrap_right:
  assumes "cw s = CHR ''w''" and "0 \<le> cn s" and "cn s - 1 < ci s + int q"
  shows "\<exists>s'. pinc q s = Inr s' \<and> ci s' = (ci s + int q) mod (cn s + 1)"
proof -
  from assms(3) have "cn s < ci s + int q \<or> ci s + int q = cn s" by auto
  then have "wrap (ci s + int q) 0 (cn s) = Inr ((ci s + int q) mod (cn s + 1))"
  proof
    assume "cn s < ci s + int q"
    with assms(2) have "wrap (ci s + int q) 0 (cn s)
        = Inr ((ci s + int q - 0) mod (cn s - 0 + 1) + 0)"
      by (rule wrap_above)
    then show ?thesis by simp
  next
    assume e: "ci s + int q = cn s"
    show ?thesis
    proof (cases "cn s = 0")
      case True
      with e show ?thesis by (simp add: wrap_def c_rem_def)
    next
      case False
      with assms(2) have "0 < cn s" by simp
      with e show ?thesis by (simp add: wrap_def c_rem_def)
    qed
  qed
  then show ?thesis
    using assms(1,3) by (simp add: pinc_def)
qed

subsection \<open>The quantity of a bracket\<close>

lemma fold_runs_bracket:
  "(c, q) \<in> set (fold_runs cs) \<Longrightarrow> \<not> foldable c \<Longrightarrow> q = None"
  by (induction cs rule: fold_runs.induct) (auto split: if_splits)

text \<open>No bracket instruction of a compiled source has its \<open>quantity\<close> assigned.\<close>

lemma bracket_quantity_never_assigned:
  assumes "compile (after_options c inp) fp = Inr s" and "x \<in> set (im s)"
    and "\<not> foldable (instruction x)"
  shows "quantity x = None"
proof -
  from assms(1) have "map shown (im s) = foldl emit [] fp"
    by (simp add: compile_def compile_loop_shown after_options_def)
  then have "map shown (im s) = fold_runs (filter operator fp)"
    using emit_fold_runs [THEN conjunct2, of "[]" fp] by simp
  moreover from assms(2) have "(instruction x, quantity x) \<in> set (map shown (im s))"
    by (auto simp: shown_def)
  ultimately show ?thesis
    using assms(3) by (auto dest: fold_runs_bracket)
qed

end
